theory Spec2Isabelle
  imports Complex_Main
begin

section \<open>Numbers, operators and the random source\<close>

text \<open>
  The game exists in two variants with the same session logic: \<^verbatim>\<open>script.js\<close> (whole
  numbers only, operators ramped with the round number) and the second source file (all five
  operators, one-decimal operands in later rounds).  Where both files declare a function
  under one name, the embedding of \<^verbatim>\<open>script.js\<close> carries the suffix \<open>_int\<close> and the
  embedding of the second file the suffix \<open>_ext\<close>.

  A JavaScript number is modelled as an exact real, with \<open>Infinity\<close> and \<open>NaN\<close> as
  separate constructors; binary rounding of doubles is not modelled.  \<open>undefined\<close> (an array
  read past the end) is \<open>None\<close>.  Where the code's outcome hangs on the binary rounding
  of a double (a tie in \<^verbatim>\<open>toFixed\<close>, the difference of two decimals that are 0.01 apart
  in \<open>isClose\<close>, an overflow in \<^verbatim>\<open>Math.pow\<close>), the number computed here can differ from
  the code's.  The theorems of this development rest on the control structure (the
  order of the checks, the counters, the cursor, the score and the clock) and on the
  whole-number arithmetic of \<^verbatim>\<open>script.js\<close>.  None rests on the digits a rounding keeps,
  and nothing is stated about the verdict of \<open>isClose\<close> on two given numbers or about
  the fixed points of \<^verbatim>\<open>toFixed\<close>.
\<close>

datatype jsnum = Num real | Infinity | NaN

fun isFinite :: "jsnum \<Rightarrow> bool" where
  "isFinite (Num v) = True"
| "isFinite Infinity = False"
| "isFinite NaN = False"

datatype operator = Plus | Minus | Times | Divide | Power

text \<open>
  An item of a round is \<^verbatim>\<open>{ expr, value }\<close>.  The display string \<open>expr\<close> is a template
  literal over the two operands and the operator; the three interpolated parts are kept
  instead of the rendered text.
\<close>

record expression =
  expr :: "real \<times> operator \<times> real"
  val :: real

text \<open>
  The operand range \<^verbatim>\<open>{ min, max, float }\<close>.  The ranges of \<^verbatim>\<open>script.js\<close> have no
  \<open>float\<close> field and its generator never reads one; they carry \<open>False\<close> here.
\<close>

record operandRange =
  range_min :: real
  range_max :: real
  range_float :: bool

text \<open>
  The state of one run of the generator: the items pushed so far, the set of result keys,
  the attempt counter \<open>guard\<close>, and the number of \<^verbatim>\<open>Math.random()\<close> calls made so far.
  The results of those calls are a sequence \<open>rnd\<close> given from outside.
\<close>

record gen_state =
  items :: "expression list"
  results :: "real set"
  guard :: nat
  pos :: nat

definition gen_init :: gen_state where
  "gen_init = \<lparr>items = [], results = {}, guard = 0, pos = 0\<rparr>"

definition randomInt :: "real \<Rightarrow> real \<Rightarrow> real \<Rightarrow> real" where
  \<comment> \<open>\<open>r\<close> is the result of the call of \<^verbatim>\<open>Math.random()\<close>\<close>
  "randomInt r lo hi = of_int \<lfloor>r * (hi - lo + 1)\<rfloor> + lo"

definition toFixed :: "nat \<Rightarrow> real \<Rightarrow> real" where
  \<comment> \<open>\<^verbatim>\<open>+(x).toFixed(d)\<close>: nearest multiple of \<open>10^-d\<close>, ties away from zero; numbers
      from \<open>10^21\<close> on are printed in full and read back unchanged\<close>
  "toFixed d x =
     (if \<bar>x\<bar> \<ge> 10 ^ 21 then x
      else if x < 0 then - (of_int \<lfloor>(- x) * 10 ^ d + 1 / 2\<rfloor> / 10 ^ d)
      else of_int \<lfloor>x * 10 ^ d + 1 / 2\<rfloor> / 10 ^ d)"

definition Math_round :: "real \<Rightarrow> real" where
  "Math_round x = of_int \<lfloor>x + 1 / 2\<rfloor>"

definition Math_pow :: "real \<Rightarrow> real \<Rightarrow> jsnum" where
  "Math_pow a b =
     (if b = of_int \<lfloor>b\<rfloor> then
        (if b \<ge> 0 then Num (a ^ nat \<lfloor>b\<rfloor>)
         else if a = 0 then Infinity
         else Num (1 / a ^ nat \<lfloor>- b\<rfloor>))
      else if a > 0 then Num (a powr b)
      else if a = 0 then (if b > 0 then Num 0 else Infinity)
      else NaN)"

section \<open>Difficulty policy\<close>

definition getBubbleCountForRound :: "nat \<Rightarrow> nat" where
  "getBubbleCountForRound rno = 3"

definition getOperatorSetForRound_int :: "nat \<Rightarrow> operator list" where
  "getOperatorSetForRound_int rno =
     (if rno \<le> 5 then [Plus]
      else if rno \<le> 10 then [Plus, Minus]
      else if rno \<le> 18 then [Plus, Minus, Times]
      else [Plus, Minus, Times, Divide])"

definition getOperandRangeForRound_int :: "nat \<Rightarrow> operandRange" where
  "getOperandRangeForRound_int rno =
     (if rno \<le> 5 then \<lparr>range_min = 1, range_max = 12, range_float = False\<rparr>
      else if rno \<le> 10 then \<lparr>range_min = 3, range_max = 20, range_float = False\<rparr>
      else if rno \<le> 18 then \<lparr>range_min = 6, range_max = 40, range_float = False\<rparr>
      else \<lparr>range_min = 10, range_max = 80, range_float = False\<rparr>)"

definition getOperatorSetForRound_ext :: "nat \<Rightarrow> operator list" where
  "getOperatorSetForRound_ext rno = [Plus, Minus, Times, Divide, Power]"

definition getOperandRangeForRound_ext :: "nat \<Rightarrow> operandRange" where
  "getOperandRangeForRound_ext rno =
     (if rno \<le> 7 then \<lparr>range_min = 1, range_max = 12, range_float = False\<rparr>
      else if rno \<le> 15 then \<lparr>range_min = 2, range_max = 30, range_float = True\<rparr>
      else \<lparr>range_min = 3, range_max = 60, range_float = True\<rparr>)"

section \<open>Expression synthesizer, whole-number variant\<close>

fun evaluate :: "real \<Rightarrow> real \<Rightarrow> operator \<Rightarrow> jsnum" where
  "evaluate a b Plus = Num (a + b)"
| "evaluate a b Minus = Num (a - b)"
| "evaluate a b Times = Num (a * b)"
| "evaluate a b Divide = (if b = 0 then Infinity else Num (a / b))"
| "evaluate a b Power = NaN"

text \<open>
  The operands of one attempt (the body of the inner loop up to the call of
  \<open>evaluate\<close>), with the position in the random sequence after the draws.
\<close>

definition operands_int ::
  "(nat \<Rightarrow> real) \<Rightarrow> nat \<Rightarrow> operandRange \<Rightarrow> operator \<Rightarrow> (real \<times> real) \<times> nat" where
  "operands_int rnd k rng op =
     (let a = randomInt (rnd k) (range_min rng) (range_max rng);
          b = randomInt (rnd (k + 1)) (range_min rng) (range_max rng)
      in if op = Times then
           ((randomInt (rnd (k + 2)) (range_min rng) (min (range_max rng) 12),
             randomInt (rnd (k + 3)) (range_min rng) (min (range_max rng) 12)), k + 4)
         else if op = Divide then
           (let b0 = randomInt (rnd (k + 2)) (max 1 (range_min rng)) (min (range_max rng) 12);
                b1 = (if b0 = 0 then 1 else b0);
                m = min 30 (of_int \<lfloor>range_max rng / b1\<rfloor>);
                q = randomInt (rnd (k + 3)) 1 (if m = 0 then 1 else m)
            in ((b1 * q, b1), k + 4))
         else ((a, b), k + 2))"

text \<open>
  One pass through the body of the inner loop: the item to push, or \<open>None\<close> when the
  pass ends in \<^verbatim>\<open>continue\<close>; with the position in the random sequence after it.
\<close>

definition attempt_int ::
  "(nat \<Rightarrow> real) \<Rightarrow> nat \<Rightarrow> operandRange \<Rightarrow> operator \<Rightarrow> real set \<Rightarrow> expression option \<times> nat" where
  "attempt_int rnd k rng op res =
     (case operands_int rnd k rng op of
        ((a, b), k') \<Rightarrow>
          (case evaluate a b op of
             Num v \<Rightarrow>
               if \<bar>v\<bar> > 999 then (None, k')
               else if v \<in> res then (None, k')
               else (Some \<lparr>expr = (a, op, b), val = v\<rparr>, k')
           | Infinity \<Rightarrow> (None, k')
           | NaN \<Rightarrow> (None, k')))"

text \<open>
  The inner \<^verbatim>\<open>while (attempts < 500)\<close> loop for one operator slot.  It returns the item
  pushed (if any), the attempt counter \<open>guard\<close> and the position in the random sequence.
\<close>

function slotLoop ::
  "(nat \<Rightarrow> real) \<Rightarrow> operandRange \<Rightarrow> operator \<Rightarrow> real set \<Rightarrow> nat \<Rightarrow> nat \<Rightarrow> nat
     \<Rightarrow> expression option \<times> nat \<times> nat" where
  "slotLoop rnd rng op res attempts g k =
     (if attempts < 500 then
        (case attempt_int rnd k rng op res of
           (Some item, k') \<Rightarrow> (Some item, g + 1, k')
         | (None, k') \<Rightarrow> slotLoop rnd rng op res (attempts + 1) (g + 1) k')
      else (None, g, k))"
  by pat_completeness auto
termination
  by (relation "measure (\<lambda>(rnd, rng, op, res, attempts, g, k). 500 - attempts)") auto

text \<open>
  The outer \<^verbatim>\<open>for\<close> loop over the operator sequence: it stops at the end of the
  sequence or when a slot starts with \<open>guard\<close> at 5000 or more.
\<close>

fun forLoop :: "(nat \<Rightarrow> real) \<Rightarrow> operandRange \<Rightarrow> operator list \<Rightarrow> gen_state \<Rightarrow> gen_state" where
  "forLoop rnd rng [] st = st"
| "forLoop rnd rng (op # opSeq) st =
     (if guard st < 5000 then
        (case slotLoop rnd rng op (results st) 0 (guard st) (pos st) of
           (None, g, k) \<Rightarrow> forLoop rnd rng opSeq (st\<lparr>guard := g, pos := k\<rparr>)
         | (Some item, g, k) \<Rightarrow>
             forLoop rnd rng opSeq
               (st\<lparr>items := items st @ [item], results := insert (val item) (results st),
                   guard := g, pos := k\<rparr>))
      else st)"

declare slotLoop.simps [simp del]

definition generate_int :: "(nat \<Rightarrow> real) \<Rightarrow> nat \<Rightarrow> nat \<Rightarrow> gen_state" where
  \<comment> \<open>the run of the generator of \<^verbatim>\<open>script.js\<close>, up to its \<^verbatim>\<open>return\<close>\<close>
  "generate_int rnd rno count =
     (let ops = getOperatorSetForRound_int rno;
          rng = getOperandRangeForRound_int rno;
          opSeq = map (\<lambda>i. ops ! (i mod length ops)) [0..<count]
      in forLoop rnd rng opSeq gen_init)"

definition generateExpressionsForRound_int :: "(nat \<Rightarrow> real) \<Rightarrow> nat \<Rightarrow> nat \<Rightarrow> expression list" where
  "generateExpressionsForRound_int rnd rno count = items (generate_int rnd rno count)"

section \<open>Expression synthesizer, extended variant\<close>

fun evaluateAdvanced :: "real \<Rightarrow> real \<Rightarrow> operator \<Rightarrow> jsnum" where
  "evaluateAdvanced a b Plus = Num (toFixed 2 (a + b))"
| "evaluateAdvanced a b Minus = Num (toFixed 2 (a - b))"
| "evaluateAdvanced a b Times = Num (toFixed 2 (a * b))"
| "evaluateAdvanced a b Divide = (if b = 0 then Infinity else Num (toFixed 2 (a / b)))"
| "evaluateAdvanced a b Power = Math_pow a b"

definition randomOperand :: "(nat \<Rightarrow> real) \<Rightarrow> nat \<Rightarrow> real \<Rightarrow> real \<Rightarrow> bool \<Rightarrow> real \<times> nat" where
  \<comment> \<open>the coin is tossed only when \<open>asFloat\<close> holds\<close>
  "randomOperand rnd k lo hi asFloat =
     (if asFloat then
        (if rnd k < 1 / 2 then (toFixed 1 (rnd (k + 1) * (hi - lo) + lo), k + 2)
         else (randomInt (rnd (k + 1)) lo hi, k + 2))
      else (randomInt (rnd k) lo hi, k + 1))"

definition operands_ext ::
  "(nat \<Rightarrow> real) \<Rightarrow> nat \<Rightarrow> nat \<Rightarrow> operandRange \<Rightarrow> operator \<Rightarrow> (real \<times> real) \<times> nat" where
  "operands_ext rnd k rno rng op =
     (if op = Divide \<and> range_float rng then
        (case randomOperand rnd k (max (1 / 2) (range_min rng))
                (max 1 (min 15 (range_max rng))) True of
           (b0, k1) \<Rightarrow>
             (let b = (if b0 = 0 then 1 else b0);
                  a = toFixed 1 (b * randomInt (rnd k1) 2 (max 3 (of_int \<lfloor>range_max rng / b\<rfloor>)))
              in ((a, b), k1 + 1)))
      else if op = Power then
        (case randomOperand rnd k (range_min rng)
                (min (range_max rng) (if rno < 10 then 5 else 9)) False of
           (a, k1) \<Rightarrow>
             (case randomOperand rnd k1 2 (if rno < 10 then 3 else if rno < 20 then 4 else 6)
                     False of
                (b, k2) \<Rightarrow> ((a, b), k2)))
      else
        (case randomOperand rnd k (range_min rng) (range_max rng)
                (op \<noteq> Power \<and> range_float rng) of
           (a, k1) \<Rightarrow>
             (case randomOperand rnd k1 (range_min rng) (range_max rng)
                     (op \<noteq> Power \<and> range_float rng) of
                (b, k2) \<Rightarrow> ((a, b), k2))))"

text \<open>
  One pass through the body of the \<^verbatim>\<open>while\<close> loop: \<open>guard\<close> goes up by one, and the
  candidate is pushed unless the pass ends in \<^verbatim>\<open>continue\<close>.
\<close>

definition round3 :: "real \<Rightarrow> real" where
  \<comment> \<open>\<^verbatim>\<open>Math.round(+value * 1000) / 1000\<close>\<close>
  "round3 v = Math_round (v * 1000) / 1000"

definition loopBody_ext :: "(nat \<Rightarrow> real) \<Rightarrow> nat \<Rightarrow> gen_state \<Rightarrow> gen_state" where
  "loopBody_ext rnd rno st =
     (let ops = getOperatorSetForRound_ext rno;
          rng = getOperandRangeForRound_ext rno;
          op = ops ! (length (items st) mod length ops)
      in case operands_ext rnd (pos st) rno rng op of
           ((a, b), k') \<Rightarrow>
             (case evaluateAdvanced a b op of
                Num v \<Rightarrow>
                  if \<bar>v\<bar> > 999999 then st\<lparr>guard := guard st + 1, pos := k'\<rparr>
                  else
                    (let valKey = round3 v
                     in if valKey \<in> results st then st\<lparr>guard := guard st + 1, pos := k'\<rparr>
                        else st\<lparr>items := items st @ [\<lparr>expr = (a, op, b), val = v\<rparr>],
                                results := insert valKey (results st),
                                guard := guard st + 1, pos := k'\<rparr>)
              | Infinity \<Rightarrow> st\<lparr>guard := guard st + 1, pos := k'\<rparr>
              | NaN \<Rightarrow> st\<lparr>guard := guard st + 1, pos := k'\<rparr>))"

text \<open>The \<^verbatim>\<open>while (items.length < count && guard < 5000)\<close> loop.\<close>

function whileLoop :: "(nat \<Rightarrow> real) \<Rightarrow> nat \<Rightarrow> nat \<Rightarrow> gen_state \<Rightarrow> gen_state" where
  "whileLoop rnd rno count st =
     (if length (items st) < count \<and> guard st < 5000 then
        whileLoop rnd rno count (loopBody_ext rnd rno st)
      else st)"
  by pat_completeness auto
termination
  by (relation "measure (\<lambda>(rnd, rno, count, st). 5000 - guard st)")
    (auto simp: loopBody_ext_def Let_def split: prod.splits jsnum.splits)

declare whileLoop.simps [simp del]

definition generate_ext :: "(nat \<Rightarrow> real) \<Rightarrow> nat \<Rightarrow> nat \<Rightarrow> gen_state" where
  \<comment> \<open>the run of the generator of the second file, up to its \<^verbatim>\<open>return\<close>\<close>
  "generate_ext rnd rno count = whileLoop rnd rno count gen_init"

definition generateExpressionsForRound_ext :: "(nat \<Rightarrow> real) \<Rightarrow> nat \<Rightarrow> nat \<Rightarrow> expression list" where
  "generateExpressionsForRound_ext rnd rno count = items (generate_ext rnd rno count)"

section \<open>Session state\<close>

datatype variant = IntegerOnly | Extended

definition generateExpressionsForRound ::
  "variant \<Rightarrow> (nat \<Rightarrow> real) \<Rightarrow> nat \<Rightarrow> nat \<Rightarrow> expression list" where
  "generateExpressionsForRound var rnd rno count =
     (case var of
        IntegerOnly \<Rightarrow> generateExpressionsForRound_int rnd rno count
      | Extended \<Rightarrow> generateExpressionsForRound_ext rnd rno count)"

text \<open>
  The callbacks handed to \<^verbatim>\<open>setTimeout\<close>: \<open>nextRound\<close> itself, and the closure inside
  \<open>nextRound\<close> that builds the round after 180 ms.  The delays are not modelled: a pending
  callback may run at any later moment, in any order.
\<close>

datatype callback = NextRound | RoundSetup

text \<open>
  The variables of the script.  \<open>timerId\<close> records whether the interval is running;
  \<open>timeouts\<close> holds the callbacks scheduled and not yet run.  Updates of the page are
  left out.
\<close>

record session =
  currentRound :: nat
  score :: nat
  highScore :: nat
  remaining :: int
  timerId :: bool
  targetOrder :: "real list"
  nextIndex :: nat
  acceptingInput :: bool
  timeouts :: "callback list"

definition TOTAL_ROUNDS :: nat where "TOTAL_ROUNDS = 25"
definition TIME_PER_ROUND :: int where "TIME_PER_ROUND = 15"
definition PENALTY_SECONDS :: int where "PENALTY_SECONDS = 2"
definition POINTS_PER_SEQUENCE :: nat where "POINTS_PER_SEQUENCE = 10"

definition initialSession :: "nat \<Rightarrow> session" where
  \<comment> \<open>\<open>stored\<close> is the high score read from storage, 0 when there is none\<close>
  "initialSession stored =
     \<lparr>currentRound = 0, score = 0, highScore = stored, remaining = TIME_PER_ROUND,
      timerId = False, targetOrder = [], nextIndex = 0, acceptingInput = False,
      timeouts = []\<rparr>"

definition setTimeout :: "callback \<Rightarrow> session \<Rightarrow> session" where
  "setTimeout cb s = s\<lparr>timeouts := timeouts s @ [cb]\<rparr>"

definition stopTimer :: "session \<Rightarrow> session" where
  "stopTimer s = (if timerId s then s\<lparr>timerId := False\<rparr> else s)"

definition startTimer :: "session \<Rightarrow> session" where
  "startTimer s = (stopTimer s)\<lparr>timerId := True\<rparr>"

definition timerTick :: "session \<Rightarrow> session" where
  \<comment> \<open>the callback of \<^verbatim>\<open>setInterval\<close> in \<open>startTimer\<close>\<close>
  "timerTick s =
     (let s1 = s\<lparr>remaining := remaining s - 1\<rparr>;
          s2 = (if remaining s1 < 0 then s1\<lparr>remaining := 0\<rparr> else s1)
      in if remaining s2 \<le> 0 then
           setTimeout NextRound ((stopTimer s2)\<lparr>acceptingInput := False\<rparr>)
         else s2)"

definition endGame :: "session \<Rightarrow> session" where
  "endGame s =
     (let s1 = (stopTimer s)\<lparr>acceptingInput := False\<rparr>
      in if score s1 > highScore s1 then s1\<lparr>highScore := score s1\<rparr> else s1)"

definition nextRound :: "session \<Rightarrow> session" where
  "nextRound s =
     (let s1 = (stopTimer s)\<lparr>currentRound := currentRound s + 1\<rparr>
      in if currentRound s1 > TOTAL_ROUNDS then endGame s1
         else setTimeout RoundSetup s1)"

definition roundSetup :: "variant \<Rightarrow> (nat \<Rightarrow> real) \<Rightarrow> session \<Rightarrow> session" where
  \<comment> \<open>the closure scheduled by \<open>nextRound\<close>; \<open>rnd\<close> are the random numbers drawn while it runs\<close>
  "roundSetup var rnd s =
     (let count = getBubbleCountForRound (currentRound s);
          expressions = generateExpressionsForRound var rnd (currentRound s) count
      in startTimer
           (s\<lparr>targetOrder := sort (map val expressions), nextIndex := 0,
              acceptingInput := True, remaining := TIME_PER_ROUND\<rparr>))"

definition startGame :: "session \<Rightarrow> session" where
  "startGame s = nextRound (s\<lparr>currentRound := 0, score := 0\<rparr>)"

definition applyPenalty :: "session \<Rightarrow> session" where
  "applyPenalty s =
     (let s1 = s\<lparr>remaining := max 0 (remaining s - PENALTY_SECONDS)\<rparr>
      in if remaining s1 \<le> 0 then
           setTimeout NextRound ((stopTimer s1)\<lparr>acceptingInput := False\<rparr>)
         else s1)"

section \<open>Selection validator\<close>

text \<open>
  A selection event comes from a tile.  The tile's \<^verbatim>\<open>data-value\<close> attribute is the decimal
  rendering \<^verbatim>\<open>String(item.value)\<close> of a number, or it is missing or unreadable
  (\<open>Malformed\<close>).  Reading the rendering back with \<^verbatim>\<open>parseFloat\<close> gives the number;
  \<^verbatim>\<open>parseInt\<close> stops at the decimal point and gives its whole part.  The handlers are
  attached to button elements only, so the test \<^verbatim>\<open>target instanceof HTMLElement\<close>
  always passes and is left out.
\<close>

datatype selection = Tile real | Malformed

fun parseInt :: "selection \<Rightarrow> jsnum" where
  "parseInt (Tile v) = Num (if v < 0 then of_int \<lceil>v\<rceil> else of_int \<lfloor>v\<rfloor>)"
| "parseInt Malformed = NaN"

fun parseFloat :: "selection \<Rightarrow> jsnum" where
  "parseFloat (Tile v) = Num v"
| "parseFloat Malformed = NaN"

fun isClose :: "jsnum \<Rightarrow> real option \<Rightarrow> real \<Rightarrow> bool" where
  "isClose (Num v1) (Some v2) eps = (\<bar>v1 - v2\<bar> < eps)"
| "isClose v1 v2 eps = False"

fun strictEquals :: "jsnum \<Rightarrow> real option \<Rightarrow> bool" where
  \<comment> \<open>\<^verbatim>\<open>value === expected\<close>\<close>
  "strictEquals (Num v1) (Some v2) = (v1 = v2)"
| "strictEquals v1 v2 = False"

definition expected :: "session \<Rightarrow> real option" where
  \<comment> \<open>\<^verbatim>\<open>targetOrder[nextIndex]\<close>\<close>
  "expected s =
     (if nextIndex s < length (targetOrder s) then Some (targetOrder s ! nextIndex s)
      else None)"

definition selectionCorrect :: "variant \<Rightarrow> selection \<Rightarrow> session \<Rightarrow> bool" where
  \<comment> \<open>the condition of the \<^verbatim>\<open>if\<close> in \<open>onBubbleSelect\<close>; the default \<open>eps\<close> is 0.01\<close>
  "selectionCorrect var sel s =
     (case var of
        IntegerOnly \<Rightarrow> strictEquals (parseInt sel) (expected s)
      | Extended \<Rightarrow> isClose (parseFloat sel) (expected s) (1 / 100))"

definition onBubbleSelect :: "variant \<Rightarrow> selection \<Rightarrow> session \<Rightarrow> session" where
  "onBubbleSelect var sel s =
     (if \<not> acceptingInput s then s
      else if selectionCorrect var sel s then
        (let s1 = s\<lparr>nextIndex := nextIndex s + 1\<rparr>
         in if nextIndex s1 \<ge> length (targetOrder s1) then
              setTimeout NextRound
                (s1\<lparr>acceptingInput := False, score := score s1 + POINTS_PER_SEQUENCE\<rparr>)
            else s1)
      else applyPenalty s)"

section \<open>Events\<close>

text \<open>
  What can happen to a session: a click on the start button, a click on a tile, a tick of
  the interval (only while it runs), and the run of the \<open>i\<close>-th pending callback, with the
  random numbers it draws.
\<close>

datatype event = Start | Select selection | Tick | Fire nat "nat \<Rightarrow> real"

fun runCallback :: "variant \<Rightarrow> (nat \<Rightarrow> real) \<Rightarrow> callback \<Rightarrow> session \<Rightarrow> session" where
  "runCallback var rnd NextRound s = nextRound s"
| "runCallback var rnd RoundSetup s = roundSetup var rnd s"

fun step :: "variant \<Rightarrow> session \<Rightarrow> event \<Rightarrow> session" where
  "step var s Start = startGame s"
| "step var s (Select sel) = onBubbleSelect var sel s"
| "step var s Tick = (if timerId s then timerTick s else s)"
| "step var s (Fire i rnd) =
     (if i < length (timeouts s) then
        runCallback var rnd (timeouts s ! i)
          (s\<lparr>timeouts := take i (timeouts s) @ drop (Suc i) (timeouts s)\<rparr>)
      else s)"

definition run :: "variant \<Rightarrow> event list \<Rightarrow> session \<Rightarrow> session" where
  "run var es s = foldl (step var) s es"

text \<open>The events of one round in play: selections and ticks only.\<close>

fun inRound :: "event \<Rightarrow> bool" where
  "inRound (Select sel) = True"
| "inRound Tick = True"
| "inRound e = False"

fun inSession :: "event \<Rightarrow> bool" where
  "inSession Start = False"
| "inSession e = True"

definition MAX_MAGNITUDE :: "variant \<Rightarrow> real" where
  "MAX_MAGNITUDE var = (case var of IntegerOnly \<Rightarrow> 999 | Extended \<Rightarrow> 999999)"

definition evaluateFor :: "variant \<Rightarrow> real \<Rightarrow> real \<Rightarrow> operator \<Rightarrow> jsnum" where
  "evaluateFor var a b op =
     (case var of IntegerOnly \<Rightarrow> evaluate a b op | Extended \<Rightarrow> evaluateAdvanced a b op)"

section \<open>A concrete run\<close>

text \<open>
  A concrete random sequence, \<open>0, 0.1, \<dots>, 0.9\<close> repeated, and the session after the
  start button and the set-up of round 1 under it.
\<close>

definition sampleDraws :: "nat \<Rightarrow> real" where
  "sampleDraws i = real (i mod 10) / 10"

definition sampleSession :: "variant \<Rightarrow> session" where
  "sampleSession var = run var [Start, Fire 0 sampleDraws] (initialSession 0)"

section \<open>Invariants of the extended generator's loop\<close>

lemma whileLoop_invariant:
  assumes "P st"
    and "\<And>st. P st \<Longrightarrow> length (items st) < count \<Longrightarrow> guard st < 5000
            \<Longrightarrow> P (loopBody_ext rnd rno st)"
  shows "P (whileLoop rnd rno count st)"
  using assms
proof (induction rnd rno count st rule: whileLoop.induct)
  case (1 rnd rno count st)
  show ?case
  proof (cases "length (items st) < count \<and> guard st < 5000")
    case True
    then have "P (loopBody_ext rnd rno st)"
      using "1.prems" by simp
    then have "P (whileLoop rnd rno count (loopBody_ext rnd rno st))"
      using "1.IH" [OF True] "1.prems"(2) by blast
    then show ?thesis
      using True by (subst whileLoop.simps) simp
  next
    case False
    then have "whileLoop rnd rno count st = st"
      by (subst whileLoop.simps) (simp only: if_False)
    then show ?thesis using "1.prems"(1) by simp
  qed
qed

lemma loopBody_ext_cases:
  fixes rnd rno st
  defines "op \<equiv> getOperatorSetForRound_ext rno
                  ! (length (items st) mod length (getOperatorSetForRound_ext rno))"
  obtains (retry) k where "loopBody_ext rnd rno st = st\<lparr>guard := guard st + 1, pos := k\<rparr>"
  | (push) a b v k where
      "loopBody_ext rnd rno st =
         st\<lparr>items := items st @ [\<lparr>expr = (a, op, b), val = v\<rparr>],
            results := insert (round3 v) (results st),
            guard := guard st + 1, pos := k\<rparr>"
      "operands_ext rnd (pos st) rno (getOperandRangeForRound_ext rno) op = ((a, b), k)"
      "evaluateAdvanced a b op = Num v" "\<bar>v\<bar> \<le> 999999" "round3 v \<notin> results st"
proof -
  obtain a b k where
    ops: "operands_ext rnd (pos st) rno (getOperandRangeForRound_ext rno) op = ((a, b), k)"
    by (metis prod.exhaust)
  show thesis
  proof (cases "evaluateAdvanced a b op")
    case (Num v)
    show thesis
    proof (cases "\<bar>v\<bar> > 999999 \<or> round3 v \<in> results st")
      case True
      then have "loopBody_ext rnd rno st = st\<lparr>guard := guard st + 1, pos := k\<rparr>"
        using ops Num unfolding loopBody_ext_def op_def by (auto simp: Let_def)
      then show thesis by (rule retry)
    next
      case False
      then have "loopBody_ext rnd rno st =
         st\<lparr>items := items st @ [\<lparr>expr = (a, op, b), val = v\<rparr>],
            results := insert (round3 v) (results st),
            guard := guard st + 1, pos := k\<rparr>"
        using ops Num unfolding loopBody_ext_def op_def by (auto simp: Let_def)
      then show thesis using ops Num False by (intro push) auto
    qed
  next
    case Infinity
    then have "loopBody_ext rnd rno st = st\<lparr>guard := guard st + 1, pos := k\<rparr>"
      using ops unfolding loopBody_ext_def op_def by (simp add: Let_def)
    then show thesis by (rule retry)
  next
    case NaN
    then have "loopBody_ext rnd rno st = st\<lparr>guard := guard st + 1, pos := k\<rparr>"
      using ops unfolding loopBody_ext_def op_def by (simp add: Let_def)
    then show thesis by (rule retry)
  qed
qed


lemma whileLoop_keys:
  assumes "results st = (round3 \<circ> val) ` set (items st)"
    and "distinct (map (round3 \<circ> val) (items st))"
  shows "results (whileLoop rnd rno count st) = (round3 \<circ> val) ` set (items (whileLoop rnd rno count st))
         \<and> distinct (map (round3 \<circ> val) (items (whileLoop rnd rno count st)))"
proof (rule whileLoop_invariant
    [where P = "\<lambda>st. results st = (round3 \<circ> val) ` set (items st)
                    \<and> distinct (map (round3 \<circ> val) (items st))"])
  show "results st = (round3 \<circ> val) ` set (items st) \<and> distinct (map (round3 \<circ> val) (items st))"
    using assms by simp
next
  fix st :: gen_state
  assume inv: "results st = (round3 \<circ> val) ` set (items st)
               \<and> distinct (map (round3 \<circ> val) (items st))"
  show "results (loopBody_ext rnd rno st) = (round3 \<circ> val) ` set (items (loopBody_ext rnd rno st))
        \<and> distinct (map (round3 \<circ> val) (items (loopBody_ext rnd rno st)))"
  proof (cases rnd rno st rule: loopBody_ext_cases)
    case (retry k)
    then show ?thesis using inv by simp
  next
    case (push a b v k)
    then show ?thesis using inv by auto
  qed
qed

lemma whileLoop_checked:
  assumes "\<forall>e\<in>set (items st). \<bar>val e\<bar> \<le> 999999
             \<and> (case expr e of (a, op, b) \<Rightarrow> evaluateAdvanced a b op = Num (val e))"
  shows "\<forall>e\<in>set (items (whileLoop rnd rno count st)). \<bar>val e\<bar> \<le> 999999
             \<and> (case expr e of (a, op, b) \<Rightarrow> evaluateAdvanced a b op = Num (val e))"
proof (rule whileLoop_invariant
    [where P = "\<lambda>st. \<forall>e\<in>set (items st). \<bar>val e\<bar> \<le> 999999
             \<and> (case expr e of (a, op, b) \<Rightarrow> evaluateAdvanced a b op = Num (val e))"])
  show "\<forall>e\<in>set (items st). \<bar>val e\<bar> \<le> 999999
             \<and> (case expr e of (a, op, b) \<Rightarrow> evaluateAdvanced a b op = Num (val e))"
    using assms .
next
  fix st :: gen_state
  assume inv: "\<forall>e\<in>set (items st). \<bar>val e\<bar> \<le> 999999
             \<and> (case expr e of (a, op, b) \<Rightarrow> evaluateAdvanced a b op = Num (val e))"
  show "\<forall>e\<in>set (items (loopBody_ext rnd rno st)). \<bar>val e\<bar> \<le> 999999
             \<and> (case expr e of (a, op, b) \<Rightarrow> evaluateAdvanced a b op = Num (val e))"
  proof (cases rnd rno st rule: loopBody_ext_cases)
    case (retry k)
    then show ?thesis using inv by simp
  next
    case (push a b v k)
    then show ?thesis using inv by auto
  qed
qed

lemma whileLoop_length:
  assumes "length (items st) \<le> count"
  shows "length (items (whileLoop rnd rno count st)) \<le> count"
proof (rule whileLoop_invariant [where P = "\<lambda>st. length (items st) \<le> count"])
  show "length (items st) \<le> count" using assms .
next
  fix st :: gen_state
  assume "length (items st) < count"
  then show "length (items (loopBody_ext rnd rno st)) \<le> count"
    by (cases rnd rno st rule: loopBody_ext_cases) auto
qed

lemma whileLoop_guard:
  assumes "guard st \<le> 5000"
  shows "guard (whileLoop rnd rno count st) \<le> 5000"
proof (rule whileLoop_invariant [where P = "\<lambda>st. guard st \<le> 5000"])
  show "guard st \<le> 5000" using assms .
next
  fix st :: gen_state
  assume "guard st < 5000"
  then show "guard (loopBody_ext rnd rno st) \<le> 5000"
    by (cases rnd rno st rule: loopBody_ext_cases) auto
qed


lemma whileLoop_operators:
  assumes "\<forall>i<length (items st). fst (snd (expr (items st ! i)))
             = getOperatorSetForRound_ext rno ! (i mod length (getOperatorSetForRound_ext rno))"
  shows "\<forall>i<length (items (whileLoop rnd rno count st)).
           fst (snd (expr (items (whileLoop rnd rno count st) ! i)))
             = getOperatorSetForRound_ext rno ! (i mod length (getOperatorSetForRound_ext rno))"
proof (rule whileLoop_invariant
    [where P = "\<lambda>st. \<forall>i<length (items st). fst (snd (expr (items st ! i)))
             = getOperatorSetForRound_ext rno ! (i mod length (getOperatorSetForRound_ext rno))"])
  show "\<forall>i<length (items st). fst (snd (expr (items st ! i)))
             = getOperatorSetForRound_ext rno ! (i mod length (getOperatorSetForRound_ext rno))"
    using assms .
next
  fix st :: gen_state
  assume inv: "\<forall>i<length (items st). fst (snd (expr (items st ! i)))
             = getOperatorSetForRound_ext rno ! (i mod length (getOperatorSetForRound_ext rno))"
  show "\<forall>i<length (items (loopBody_ext rnd rno st)).
           fst (snd (expr (items (loopBody_ext rnd rno st) ! i)))
             = getOperatorSetForRound_ext rno ! (i mod length (getOperatorSetForRound_ext rno))"
  proof (cases rnd rno st rule: loopBody_ext_cases)
    case (retry k)
    then show ?thesis using inv by simp
  next
    case (push a b v k)
    then show ?thesis using inv by (auto simp: nth_append less_Suc_eq)
  qed
qed

section \<open>Whole numbers in the whole-number variant\<close>

lemma randomInt_whole: "lo \<in> \<int> \<Longrightarrow> randomInt r lo hi \<in> \<int>"
  by (simp add: randomInt_def)

lemma range_int_whole: "range_min (getOperandRangeForRound_int rno) \<in> \<int>"
  by (simp add: getOperandRangeForRound_int_def)

lemma operands_int_Divide:
  assumes "operands_int rnd k rng Divide = ((a, b), k')"
  shows "\<exists>q. q \<in> \<int> \<and> b \<noteq> 0 \<and> a = b * q"
proof -
  define b0 where "b0 = randomInt (rnd (k + 2)) (max 1 (range_min rng)) (min (range_max rng) 12)"
  define b1 where "b1 = (if b0 = 0 then 1 else b0)"
  define m where "m = min 30 (real_of_int \<lfloor>range_max rng / b1\<rfloor>)"
  define q where "q = randomInt (rnd (k + 3)) 1 (if m = 0 then 1 else m)"
  have "operands_int rnd k rng Divide = ((b1 * q, b1), k + 4)"
    unfolding operands_int_def q_def m_def b1_def b0_def Let_def by simp
  then have "a = b1 * q" "b = b1" using assms by simp_all
  moreover have "b1 \<noteq> 0" by (simp add: b1_def)
  moreover have "q \<in> \<int>" unfolding q_def by (rule randomInt_whole) simp
  ultimately show ?thesis by blast
qed

lemma operands_int_other:
  assumes "operands_int rnd k rng op = ((a, b), k')" "op \<noteq> Divide" "range_min rng \<in> \<int>"
  shows "a \<in> \<int> \<and> b \<in> \<int>"
proof (cases "op = Times")
  case True
  then have "a = randomInt (rnd (k + 2)) (range_min rng) (min (range_max rng) 12)"
    and "b = randomInt (rnd (k + 3)) (range_min rng) (min (range_max rng) 12)"
    using assms(1) unfolding operands_int_def Let_def by simp_all
  then show ?thesis using randomInt_whole [OF assms(3)] by simp
next
  case False
  then have "a = randomInt (rnd k) (range_min rng) (range_max rng)"
    and "b = randomInt (rnd (k + 1)) (range_min rng) (range_max rng)"
    using assms(1,2) unfolding operands_int_def Let_def by simp_all
  then show ?thesis using randomInt_whole [OF assms(3)] by simp
qed

lemma operands_int_evaluate_whole:
  assumes "operands_int rnd k (getOperandRangeForRound_int rno) op = ((a, b), k')"
    and "evaluate a b op = Num v"
  shows "v \<in> \<int>"
proof (cases "op = Divide")
  case True
  then obtain q where q: "q \<in> \<int>" "b \<noteq> 0" "a = b * q"
    using operands_int_Divide [of rnd k "getOperandRangeForRound_int rno" a b k'] assms(1)
    by auto
  have "evaluate a b Divide = Num q" using q(2,3) by simp
  then have "v = q" using assms(2) True by simp
  then show ?thesis using q(1) by simp
next
  case False
  have ab: "a \<in> \<int>" "b \<in> \<int>"
    using operands_int_other [OF assms(1) False range_int_whole] by simp_all
  show ?thesis
  proof (cases op)
    case Plus
    then have "v = a + b" using assms(2) by simp
    then show ?thesis using ab by (simp only: Ints_add)
  next
    case Minus
    then have "v = a - b" using assms(2) by simp
    then show ?thesis using ab by (simp only: Ints_diff)
  next
    case Times
    then have "v = a * b" using assms(2) by simp
    then show ?thesis using ab by (simp only: Ints_mult)
  next
    case Divide
    then show ?thesis using False by simp
  next
    case Power
    then show ?thesis using assms(2) by simp
  qed
qed

section \<open>The loops of the whole-number generator; what both generators return\<close>

lemma attempt_int_Some:
  assumes "attempt_int rnd k rng op res = (Some item, k')"
  shows "\<exists>a b. operands_int rnd k rng op = ((a, b), k') \<and> evaluate a b op = Num (val item)
           \<and> expr item = (a, op, b) \<and> \<bar>val item\<bar> \<le> 999 \<and> val item \<notin> res"
proof -
  obtain a b k1 where ops: "operands_int rnd k rng op = ((a, b), k1)"
    by (metis prod.exhaust)
  show ?thesis
  proof (cases "evaluate a b op")
    case (Num v)
    then show ?thesis using assms ops
      by (auto simp: attempt_int_def split: if_splits)
  next
    case Infinity
    then show ?thesis using assms ops by (simp add: attempt_int_def)
  next
    case NaN
    then show ?thesis using assms ops by (simp add: attempt_int_def)
  qed
qed

lemma slotLoop_result:
  assumes "slotLoop rnd rng op res attempts g k = (r, g', k')"
  shows "g \<le> g' \<and> g' \<le> g + (500 - attempts)
         \<and> (\<forall>item. r = Some item \<longrightarrow> (\<exists>k0 k1. attempt_int rnd k0 rng op res = (Some item, k1)))"
  using assms
proof (induction rnd rng op res attempts g k rule: slotLoop.induct)
  case (1 rnd rng op res attempts g k)
  show ?case
  proof (cases "attempts < 500")
    case False
    then have "slotLoop rnd rng op res attempts g k = (None, g, k)"
      by (subst slotLoop.simps) simp
    then show ?thesis using "1.prems" by simp
  next
    case True
    obtain x k1 where att: "attempt_int rnd k rng op res = (x, k1)"
      by (metis prod.exhaust)
    show ?thesis
    proof (cases x)
      case (Some item)
      then have "slotLoop rnd rng op res attempts g k = (Some item, g + 1, k1)"
        using True att by (subst slotLoop.simps) simp
      then show ?thesis using "1.prems" True att Some by auto
    next
      case None
      then have "slotLoop rnd rng op res attempts g k
                 = slotLoop rnd rng op res (attempts + 1) (g + 1) k1"
        using True att by (subst slotLoop.simps) simp
      then have "slotLoop rnd rng op res (attempts + 1) (g + 1) k1 = (r, g', k')"
        using "1.prems" by simp
      from "1.IH" [OF True att [symmetric] None this] show ?thesis using True by auto
    qed
  qed
qed

lemma forLoop_invariant:
  assumes "P st"
    and "\<And>st g k. P st \<Longrightarrow> P (st\<lparr>guard := g, pos := k\<rparr>)"
    and "\<And>st item g k op k0 k1. P st \<Longrightarrow> attempt_int rnd k0 rng op (results st) = (Some item, k1)
           \<Longrightarrow> P (st\<lparr>items := items st @ [item], results := insert (val item) (results st),
                      guard := g, pos := k\<rparr>)"
  shows "P (forLoop rnd rng opSeq st)"
  using assms(1)
proof (induction opSeq arbitrary: st)
  case Nil
  then show ?case by simp
next
  case (Cons op opSeq)
  show ?case
  proof (cases "guard st < 5000")
    case False
    then show ?thesis using Cons.prems by simp
  next
    case True
    obtain r g k where sl: "slotLoop rnd rng op (results st) 0 (guard st) (pos st) = (r, g, k)"
      by (metis prod.exhaust)
    show ?thesis
    proof (cases r)
      case None
      have "P (st\<lparr>guard := g, pos := k\<rparr>)" using assms(2) Cons.prems .
      then have "P (forLoop rnd rng opSeq (st\<lparr>guard := g, pos := k\<rparr>))" by (rule Cons.IH)
      then show ?thesis using True sl None by simp
    next
      case (Some item)
      then obtain k0 k1 where "attempt_int rnd k0 rng op (results st) = (Some item, k1)"
        using slotLoop_result [OF sl] by blast
      then have "P (st\<lparr>items := items st @ [item], results := insert (val item) (results st),
                      guard := g, pos := k\<rparr>)"
        using assms(3) Cons.prems by blast
      then have "P (forLoop rnd rng opSeq
                     (st\<lparr>items := items st @ [item], results := insert (val item) (results st),
                      guard := g, pos := k\<rparr>))" by (rule Cons.IH)
      then show ?thesis using True sl Some by simp
    qed
  qed
qed

lemma forLoop_guard:
  "guard (forLoop rnd rng opSeq st) \<le> max (guard st) 5499
   \<and> guard (forLoop rnd rng opSeq st) \<le> guard st + 500 * length opSeq
   \<and> length (items (forLoop rnd rng opSeq st)) \<le> length (items st) + length opSeq"
proof (induction opSeq arbitrary: st)
  case Nil
  then show ?case by simp
next
  case (Cons op opSeq)
  show ?case
  proof (cases "guard st < 5000")
    case False
    then show ?thesis by simp
  next
    case True
    obtain r g k where sl: "slotLoop rnd rng op (results st) 0 (guard st) (pos st) = (r, g, k)"
      by (metis prod.exhaust)
    then have g: "g \<le> guard st + 500" using slotLoop_result [OF sl] by simp
    show ?thesis
    proof (cases r)
      case None
      then have "forLoop rnd rng (op # opSeq) st = forLoop rnd rng opSeq (st\<lparr>guard := g, pos := k\<rparr>)"
        using True sl by simp
      then show ?thesis using Cons.IH [of "st\<lparr>guard := g, pos := k\<rparr>"] g True by simp
    next
      case (Some item)
      let ?st = "st\<lparr>items := items st @ [item], results := insert (val item) (results st),
                      guard := g, pos := k\<rparr>"
      have "forLoop rnd rng (op # opSeq) st = forLoop rnd rng opSeq ?st"
        using True sl Some by simp
      then show ?thesis using Cons.IH [of ?st] g True by simp
    qed
  qed
qed

lemma forLoop_keys:
  assumes "results st = val ` set (items st)" and "distinct (map val (items st))"
  shows "results (forLoop rnd rng opSeq st) = val ` set (items (forLoop rnd rng opSeq st))
         \<and> distinct (map val (items (forLoop rnd rng opSeq st)))"
proof (rule forLoop_invariant
    [where P = "\<lambda>st. results st = val ` set (items st) \<and> distinct (map val (items st))"])
  show "results st = val ` set (items st) \<and> distinct (map val (items st))"
    using assms by simp
next
  fix st :: gen_state and g k :: nat
  assume "results st = val ` set (items st) \<and> distinct (map val (items st))"
  then show "results (st\<lparr>guard := g, pos := k\<rparr>) = val ` set (items (st\<lparr>guard := g, pos := k\<rparr>))
             \<and> distinct (map val (items (st\<lparr>guard := g, pos := k\<rparr>)))"
    by simp
next
  fix st :: gen_state and item g k op k0 k1
  let ?st = "st\<lparr>items := items st @ [item], results := insert (val item) (results st),
                guard := g, pos := k\<rparr>"
  assume inv: "results st = val ` set (items st) \<and> distinct (map val (items st))"
    and "attempt_int rnd k0 rng op (results st) = (Some item, k1)"
  then have "val item \<notin> results st" using attempt_int_Some by blast
  then show "results ?st = val ` set (items ?st) \<and> distinct (map val (items ?st))"
    using inv by auto
qed

lemma forLoop_checked:
  assumes "\<forall>e\<in>set (items st). \<bar>val e\<bar> \<le> 999
             \<and> (case expr e of (a, op, b) \<Rightarrow> evaluate a b op = Num (val e))"
  shows "\<forall>e\<in>set (items (forLoop rnd rng opSeq st)). \<bar>val e\<bar> \<le> 999
             \<and> (case expr e of (a, op, b) \<Rightarrow> evaluate a b op = Num (val e))"
proof (rule forLoop_invariant
    [where P = "\<lambda>st. \<forall>e\<in>set (items st). \<bar>val e\<bar> \<le> 999
             \<and> (case expr e of (a, op, b) \<Rightarrow> evaluate a b op = Num (val e))"])
  show "\<forall>e\<in>set (items st). \<bar>val e\<bar> \<le> 999
             \<and> (case expr e of (a, op, b) \<Rightarrow> evaluate a b op = Num (val e))"
    using assms .
next
  fix st :: gen_state and g k :: nat
  assume "\<forall>e\<in>set (items st). \<bar>val e\<bar> \<le> 999
             \<and> (case expr e of (a, op, b) \<Rightarrow> evaluate a b op = Num (val e))"
  then show "\<forall>e\<in>set (items (st\<lparr>guard := g, pos := k\<rparr>)). \<bar>val e\<bar> \<le> 999
             \<and> (case expr e of (a, op, b) \<Rightarrow> evaluate a b op = Num (val e))"
    by simp
next
  fix st :: gen_state and item g k op k0 k1
  let ?st = "st\<lparr>items := items st @ [item], results := insert (val item) (results st),
                guard := g, pos := k\<rparr>"
  assume inv: "\<forall>e\<in>set (items st). \<bar>val e\<bar> \<le> 999
             \<and> (case expr e of (a, op, b) \<Rightarrow> evaluate a b op = Num (val e))"
    and "attempt_int rnd k0 rng op (results st) = (Some item, k1)"
  then obtain a b where "evaluate a b op = Num (val item)" "expr item = (a, op, b)"
      "\<bar>val item\<bar> \<le> 999"
    using attempt_int_Some by blast
  then show "\<forall>e\<in>set (items ?st). \<bar>val e\<bar> \<le> 999
             \<and> (case expr e of (a, op, b) \<Rightarrow> evaluate a b op = Num (val e))"
    using inv by auto
qed

lemma forLoop_whole:
  assumes "\<forall>e\<in>set (items st). val e \<in> \<int>"
  shows "\<forall>e\<in>set (items (forLoop rnd (getOperandRangeForRound_int rno) opSeq st)). val e \<in> \<int>"
proof (rule forLoop_invariant [where P = "\<lambda>st. \<forall>e\<in>set (items st). val e \<in> \<int>"])
  show "\<forall>e\<in>set (items st). val e \<in> \<int>" using assms .
next
  fix st :: gen_state and g k :: nat
  assume "\<forall>e\<in>set (items st). val e \<in> \<int>"
  then show "\<forall>e\<in>set (items (st\<lparr>guard := g, pos := k\<rparr>)). val e \<in> \<int>" by simp
next
  fix st :: gen_state and item g k op k0 k1
  let ?st = "st\<lparr>items := items st @ [item], results := insert (val item) (results st),
                guard := g, pos := k\<rparr>"
  assume inv: "\<forall>e\<in>set (items st). val e \<in> \<int>"
    and "attempt_int rnd k0 (getOperandRangeForRound_int rno) op (results st) = (Some item, k1)"
  then obtain a b where
    "operands_int rnd k0 (getOperandRangeForRound_int rno) op = ((a, b), k1)"
    "evaluate a b op = Num (val item)"
    using attempt_int_Some by blast
  then have "val item \<in> \<int>" by (rule operands_int_evaluate_whole)
  then show "\<forall>e\<in>set (items ?st). val e \<in> \<int>" using inv by simp
qed

lemma round3_whole: "x \<in> \<int> \<Longrightarrow> round3 x = x"
proof -
  assume "x \<in> \<int>"
  then obtain n :: int where x: "x = of_int n" by (rule Ints_cases)
  have "\<lfloor>real_of_int n * 1000 + 1 / 2\<rfloor> = n * 1000"
    by (rule floor_unique) simp_all
  then show ?thesis by (simp add: round3_def Math_round_def x)
qed

lemma generate_int_facts:
  "distinct (map val (items (generate_int rnd rno count)))"
  "\<forall>e\<in>set (items (generate_int rnd rno count)). \<bar>val e\<bar> \<le> 999
     \<and> (case expr e of (a, op, b) \<Rightarrow> evaluate a b op = Num (val e))"
  "\<forall>e\<in>set (items (generate_int rnd rno count)). val e \<in> \<int>"
  "length (items (generate_int rnd rno count)) \<le> count"
  "guard (generate_int rnd rno count) \<le> 5499"
  "guard (generate_int rnd rno count) \<le> 500 * count"
proof -
  let ?ops = "getOperatorSetForRound_int rno"
  let ?opSeq = "map (\<lambda>i. ?ops ! (i mod length ?ops)) [0..<count]"
  have eq: "generate_int rnd rno count
            = forLoop rnd (getOperandRangeForRound_int rno) ?opSeq gen_init"
    by (simp add: generate_int_def Let_def)
  show "distinct (map val (items (generate_int rnd rno count)))"
    unfolding eq using forLoop_keys [of gen_init] by (simp add: gen_init_def)
  show "\<forall>e\<in>set (items (generate_int rnd rno count)). \<bar>val e\<bar> \<le> 999
     \<and> (case expr e of (a, op, b) \<Rightarrow> evaluate a b op = Num (val e))"
    unfolding eq by (rule forLoop_checked) (simp add: gen_init_def)
  show "\<forall>e\<in>set (items (generate_int rnd rno count)). val e \<in> \<int>"
    unfolding eq by (rule forLoop_whole) (simp add: gen_init_def)
  show "length (items (generate_int rnd rno count)) \<le> count"
    unfolding eq using forLoop_guard [of rnd "getOperandRangeForRound_int rno" ?opSeq gen_init]
    by (simp add: gen_init_def)
  show "guard (generate_int rnd rno count) \<le> 5499"
    unfolding eq using forLoop_guard [of rnd "getOperandRangeForRound_int rno" ?opSeq gen_init]
    by (simp add: gen_init_def)
  show "guard (generate_int rnd rno count) \<le> 500 * count"
    unfolding eq using forLoop_guard [of rnd "getOperandRangeForRound_int rno" ?opSeq gen_init]
    by (simp add: gen_init_def)
qed

lemma generate_ext_facts:
  "distinct (map (round3 \<circ> val) (items (generate_ext rnd rno count)))"
  "\<forall>e\<in>set (items (generate_ext rnd rno count)). \<bar>val e\<bar> \<le> 999999
     \<and> (case expr e of (a, op, b) \<Rightarrow> evaluateAdvanced a b op = Num (val e))"
  "length (items (generate_ext rnd rno count)) \<le> count"
  "guard (generate_ext rnd rno count) \<le> 5000"
  "\<forall>i<length (items (generate_ext rnd rno count)).
     fst (snd (expr (items (generate_ext rnd rno count) ! i)))
       = getOperatorSetForRound_ext rno ! (i mod length (getOperatorSetForRound_ext rno))"
proof -
  show "distinct (map (round3 \<circ> val) (items (generate_ext rnd rno count)))"
    unfolding generate_ext_def using whileLoop_keys [of gen_init] by (simp add: gen_init_def)
  show "\<forall>e\<in>set (items (generate_ext rnd rno count)). \<bar>val e\<bar> \<le> 999999
     \<and> (case expr e of (a, op, b) \<Rightarrow> evaluateAdvanced a b op = Num (val e))"
    unfolding generate_ext_def by (rule whileLoop_checked) (simp add: gen_init_def)
  show "length (items (generate_ext rnd rno count)) \<le> count"
    unfolding generate_ext_def by (rule whileLoop_length) (simp add: gen_init_def)
  show "guard (generate_ext rnd rno count) \<le> 5000"
    unfolding generate_ext_def by (rule whileLoop_guard) (simp add: gen_init_def)
  show "\<forall>i<length (items (generate_ext rnd rno count)).
     fst (snd (expr (items (generate_ext rnd rno count) ! i)))
       = getOperatorSetForRound_ext rno ! (i mod length (getOperatorSetForRound_ext rno))"
    unfolding generate_ext_def by (rule whileLoop_operators) (simp add: gen_init_def)
qed

lemma generated_distinct_values:
  "distinct (map val (generateExpressionsForRound var rnd rno count))"
proof (cases var)
  case IntegerOnly
  then show ?thesis
    by (simp add: generateExpressionsForRound_def generateExpressionsForRound_int_def
        generate_int_facts(1))
next
  case Extended
  have "distinct (map val (items (generate_ext rnd rno count)))"
    using generate_ext_facts(1) [of rnd rno count]
    by (auto simp: distinct_map inj_on_def)
  then show ?thesis using Extended
    by (simp add: generateExpressionsForRound_def generateExpressionsForRound_ext_def)
qed

section \<open>Concrete runs\<close>

lemmas eval_ext = generate_ext_def gen_init_def whileLoop.simps loopBody_ext_def
  operands_ext_def randomOperand_def randomInt_def toFixed_def round3_def Math_round_def
  Math_pow_def getOperatorSetForRound_ext_def getOperandRangeForRound_ext_def sampleDraws_def
  Let_def


section \<open>The session\<close>

lemmas session_defs = onBubbleSelect_def applyPenalty_def setTimeout_def stopTimer_def
  timerTick_def nextRound_def endGame_def startGame_def roundSetup_def startTimer_def
  PENALTY_SECONDS_def POINTS_PER_SEQUENCE_def TIME_PER_ROUND_def TOTAL_ROUNDS_def

lemma run_Nil: "run var [] s = s"
  by (simp add: run_def)

lemma run_Cons: "run var (e # es) s = run var es (step var s e)"
  by (simp add: run_def)

lemma run_snoc: "run var (es @ [e]) s = step var (run var es s) e"
  by (simp add: run_def)

lemma run_invariant:
  assumes "P s" and "\<And>s e. P s \<Longrightarrow> P (step var s e)"
  shows "P (run var es s)"
  using assms(1)
proof (induction es rule: rev_induct)
  case Nil
  then show ?case by (simp add: run_Nil)
next
  case (snoc e es)
  then show ?case by (simp add: run_snoc assms(2))
qed

lemma nextRound_frame:
  "targetOrder (nextRound s) = targetOrder s" "remaining (nextRound s) = remaining s"
  "score (nextRound s) = score s" "nextIndex (nextRound s) = nextIndex s"
  by (simp_all add: session_defs Let_def)

lemma timerTick_frame:
  "targetOrder (timerTick s) = targetOrder s" "score (timerTick s) = score s"
  "nextIndex (timerTick s) = nextIndex s" "0 \<le> remaining (timerTick s)"
  "acceptingInput (timerTick s) \<Longrightarrow> acceptingInput s"
  by (simp_all add: session_defs Let_def split: if_splits)

lemma applyPenalty_frame:
  "targetOrder (applyPenalty s) = targetOrder s" "score (applyPenalty s) = score s"
  "nextIndex (applyPenalty s) = nextIndex s"
  "remaining (applyPenalty s) = max 0 (remaining s - 2)"
  by (simp_all add: session_defs Let_def)

lemma onBubbleSelect_frame:
  "targetOrder (onBubbleSelect var sel s) = targetOrder s"
  "0 \<le> remaining s \<Longrightarrow> 0 \<le> remaining (onBubbleSelect var sel s)"
  "acceptingInput (onBubbleSelect var sel s) \<Longrightarrow> acceptingInput s"
  by (simp_all add: session_defs Let_def split: if_splits)

lemma roundSetup_frame:
  "targetOrder (roundSetup var rnd s)
     = sort (map val (generateExpressionsForRound var rnd (currentRound s)
                        (getBubbleCountForRound (currentRound s))))"
  "remaining (roundSetup var rnd s) = 15" "score (roundSetup var rnd s) = score s"
  by (simp_all add: session_defs Let_def)

lemma step_targetOrder:
  "targetOrder (step var s e) = targetOrder s
   \<or> (\<exists>rnd rno count. targetOrder (step var s e)
         = sort (map val (generateExpressionsForRound var rnd rno count)))"
proof (cases e)
  case Start
  then show ?thesis by (simp add: startGame_def nextRound_frame)
next
  case (Select sel)
  then show ?thesis by (simp add: onBubbleSelect_frame)
next
  case Tick
  then show ?thesis by (simp add: timerTick_frame)
next
  case (Fire i rnd)
  show ?thesis
  proof (cases "i < length (timeouts s)")
    case False
    then show ?thesis using Fire by simp
  next
    case True
    show ?thesis
    proof (cases "timeouts s ! i")
      case NextRound
      then show ?thesis using Fire True by (simp add: nextRound_frame)
    next
      case RoundSetup
      then show ?thesis using Fire True by (auto simp: roundSetup_frame)
    qed
  qed
qed

lemma step_remaining:
  assumes "0 \<le> remaining s"
  shows "0 \<le> remaining (step var s e)"
proof (cases e)
  case Start
  then show ?thesis using assms by (simp add: startGame_def nextRound_frame)
next
  case (Select sel)
  then show ?thesis using assms by (simp add: onBubbleSelect_frame)
next
  case Tick
  then show ?thesis using assms by (simp add: timerTick_frame)
next
  case (Fire i rnd)
  then show ?thesis using assms
    by (cases "timeouts s ! i") (auto simp: nextRound_frame roundSetup_frame)
qed

lemma step_score: "inSession e \<Longrightarrow> score s \<le> score (step var s e)"
proof (cases e)
  case (Select sel)
  then show ?thesis by (simp add: session_defs Let_def)
next
  case Tick
  then show ?thesis by (simp add: timerTick_frame)
next
  case (Fire i rnd)
  then show ?thesis
    by (cases "timeouts s ! i") (auto simp: nextRound_frame roundSetup_frame)
qed simp

lemma sorted_generated:
  "sorted_wrt (<) (sort (map val (generateExpressionsForRound var rnd rno count)))"
  using generated_distinct_values [of var rnd rno count]
  by (simp add: strict_sorted_iff)

lemma run_remaining: "0 \<le> remaining (run var es (initialSession h))"
  by (rule run_invariant) (simp_all add: initialSession_def TIME_PER_ROUND_def step_remaining)

lemma run_sorted: "sorted_wrt (<) (targetOrder (run var es (initialSession h)))"
proof (rule run_invariant)
  show "sorted_wrt (<) (targetOrder (initialSession h))" by (simp add: initialSession_def)
next
  fix s :: session and e :: event
  assume "sorted_wrt (<) (targetOrder s)"
  then show "sorted_wrt (<) (targetOrder (step var s e))"
    using step_targetOrder [of var s e] sorted_generated by metis
qed

lemma run_score: "\<forall>e\<in>set es. inSession e \<Longrightarrow> score s \<le> score (run var es s)"
proof (induction es arbitrary: s)
  case Nil
  then show ?case by (simp add: run_Nil)
next
  case (Cons e es)
  have "score s \<le> score (step var s e)" using Cons.prems by (simp add: step_score)
  also have "\<dots> \<le> score (run var es (step var s e))" using Cons by simp
  finally show ?case by (simp add: run_Cons)
qed

lemma idle_run:
  assumes "\<not> acceptingInput s" and "\<forall>e\<in>set es. inRound e"
  shows "score (run var es s) = score s \<and> nextIndex (run var es s) = nextIndex s
         \<and> targetOrder (run var es s) = targetOrder s"
  using assms
proof (induction es arbitrary: s)
  case Nil
  then show ?case by (simp add: run_Nil)
next
  case (Cons e es)
  have "\<not> acceptingInput (step var s e) \<and> score (step var s e) = score s
        \<and> nextIndex (step var s e) = nextIndex s \<and> targetOrder (step var s e) = targetOrder s"
  proof (cases e)
    case (Select sel)
    then show ?thesis using Cons.prems(1) by (simp add: onBubbleSelect_def)
  next
    case Tick
    then show ?thesis using Cons.prems(1) timerTick_frame(5) [of s]
      by (auto simp: timerTick_frame)
  next
    case Start
    then show ?thesis using Cons.prems(2) by simp
  next
    case (Fire i rnd)
    then show ?thesis using Cons.prems(2) by simp
  qed
  then show ?case using Cons.IH [of "step var s e"] Cons.prems(2) by (simp add: run_Cons)
qed

lemma round_run:
  assumes "nextIndex s < length (targetOrder s)" and "\<forall>e\<in>set es. inRound e"
  shows "score (run var es s)
           = score s + (if nextIndex (run var es s) = length (targetOrder s) then 10 else 0)"
  using assms
proof (induction es arbitrary: s)
  case Nil
  then show ?case by (simp add: run_Nil)
next
  case (Cons e es)
  let ?s = "step var s e"
  have rest: "\<forall>e\<in>set es. inRound e" using Cons.prems(2) by simp
  consider (finished) "\<not> acceptingInput ?s" "score ?s = score s + 10"
      "nextIndex ?s = length (targetOrder s)" "targetOrder ?s = targetOrder s"
    | (pending) "score ?s = score s" "nextIndex ?s < length (targetOrder ?s)"
      "targetOrder ?s = targetOrder s"
  proof (cases e)
    case (Select sel)
    show ?thesis
    proof (cases "acceptingInput s \<and> selectionCorrect var sel s")
      case True
      show ?thesis
      proof (cases "nextIndex s + 1 \<ge> length (targetOrder s)")
        case True
        with \<open>acceptingInput s \<and> selectionCorrect var sel s\<close> Select Cons.prems(1)
        show ?thesis by (intro finished) (auto simp: session_defs Let_def)
      next
        case False
        with \<open>acceptingInput s \<and> selectionCorrect var sel s\<close> Select Cons.prems(1)
        show ?thesis by (intro pending) (auto simp: session_defs Let_def)
      qed
    next
      case False
      with Select Cons.prems(1) show ?thesis
        by (intro pending) (auto simp: onBubbleSelect_def applyPenalty_frame)
    qed
  next
    case Tick
    with Cons.prems(1) show ?thesis by (intro pending) (auto simp: timerTick_frame)
  next
    case Start
    then show ?thesis using Cons.prems(2) by simp
  next
    case (Fire i rnd)
    then show ?thesis using Cons.prems(2) by simp
  qed
  then show ?case
  proof cases
    case finished
    then show ?thesis using idle_run [OF finished(1) rest, of var] by (simp add: run_Cons)
  next
    case pending
    then show ?thesis using Cons.IH [OF pending(2) rest] by (simp add: run_Cons)
  qed
qed

lemma sample_items_three:
  "generateExpressionsForRound Extended sampleDraws (Suc 0) 3 =
     [\<lparr>expr = (1, Plus, 2), val = 3\<rparr>, \<lparr>expr = (3, Minus, 4), val = -1\<rparr>,
      \<lparr>expr = (5, Times, 7), val = 35\<rparr>]"
  by (simp add: generateExpressionsForRound_def generateExpressionsForRound_ext_def eval_ext)

lemma sample_items_five:
  "generateExpressionsForRound Extended sampleDraws (Suc 0) 5 =
     [\<lparr>expr = (1, Plus, 2), val = 3\<rparr>, \<lparr>expr = (3, Minus, 4), val = -1\<rparr>,
      \<lparr>expr = (5, Times, 7), val = 35\<rparr>, \<lparr>expr = (8, Divide, 9), val = 89 / 100\<rparr>,
      \<lparr>expr = (5, Power, 3), val = 125\<rparr>]"
  by (simp add: generateExpressionsForRound_def generateExpressionsForRound_ext_def eval_ext)

lemma sampleSession_ext:
  "sampleSession Extended =
     \<lparr>currentRound = 1, score = 0, highScore = 0, remaining = 15, timerId = True,
      targetOrder = [-1, 3, 35], nextIndex = 0, acceptingInput = True, timeouts = []\<rparr>"
  by (simp add: sampleSession_def run_def initialSession_def session_defs
      getBubbleCountForRound_def sample_items_three)

section \<open>Claims about the selection validator\<close>

text \<open>
  Claim C9.  A selection event handled while \<open>acceptingInput\<close> is false changes nothing:
  the handler returns the session as it was (score, cursor, remaining time, target order,
  round number and the flag itself included), in both variants, and there is no error
  branch to take.
\<close>

theorem stale_selection_ignored:
  "\<not> acceptingInput s \<Longrightarrow> onBubbleSelect var sel s = s"
  by (simp add: onBubbleSelect_def)

theorem stale_selection_ignored_witness:
  "\<not> acceptingInput (initialSession 0)
   \<and> onBubbleSelect Extended (Tile 4) (initialSession 0) = initialSession 0"
  using stale_selection_ignored [of "initialSession 0" Extended "Tile 4"]
  by (simp add: initialSession_def)

section \<open>Claims about the session\<close>

text \<open>
  Claim C3.  The target order built from the synthesizer's output is strictly ascending:
  each element is strictly below the next.  This holds for the target order that the
  set-up of a round stores, and so for the target order of every session reached from the
  initial one, whatever the random numbers were.
\<close>

theorem target_order_strictly_ascending:
  "sorted_wrt (<) (targetOrder (roundSetup var rnd s))
   \<and> sorted_wrt (<) (targetOrder (run var es (initialSession h)))"
  by (simp add: roundSetup_frame sorted_generated run_sorted)

text \<open>
  Claim C4.  A selection adds exactly 10 to the score when it is accepted, correct and
  moves the cursor to the end of the target order, and adds nothing otherwise; the tick
  of the countdown and the penalty add nothing.  Over the events of one round in play
  (selections and ticks), starting before the end of the target order, the score goes up
  by 10 if the cursor reaches the end and by 0 if it does not.  Over any events of a
  session (everything but a new start) the score never goes down.
\<close>

theorem scoring_law:
  "score (onBubbleSelect var sel s)
     = score s + (if acceptingInput s \<and> selectionCorrect var sel s
                     \<and> nextIndex s + 1 \<ge> length (targetOrder s) then 10 else 0)
   \<and> score (timerTick s) = score s \<and> score (applyPenalty s) = score s
   \<and> ((\<forall>e\<in>set es. inRound e) \<and> nextIndex s < length (targetOrder s) \<longrightarrow>
        score (run var es s)
          = score s + (if nextIndex (run var es s) = length (targetOrder s) then 10 else 0))
   \<and> ((\<forall>e\<in>set es. inSession e) \<longrightarrow> score s \<le> score (run var es s))"
proof -
  have "score (onBubbleSelect var sel s)
     = score s + (if acceptingInput s \<and> selectionCorrect var sel s
                     \<and> nextIndex s + 1 \<ge> length (targetOrder s) then 10 else 0)"
    by (simp add: session_defs Let_def)
  then show ?thesis
    using round_run [of s es var] run_score [of es s var]
    by (simp add: timerTick_frame applyPenalty_frame)
qed

theorem scoring_law_witness:
  "inRound (Select (Tile (-1))) \<and> inRound (Select (Tile 35)) \<and> inRound (Select (Tile 3))
   \<and> inRound Tick
   \<and> inSession (Select (Tile (-1))) \<and> inSession (Select (Tile 35))
   \<and> inSession (Select (Tile 3)) \<and> inSession Tick
   \<and> nextIndex (sampleSession Extended) < length (targetOrder (sampleSession Extended))
   \<and> nextIndex (run Extended [Select (Tile (-1)), Select (Tile 35), Select (Tile 3), Tick,
                              Select (Tile 35)] (sampleSession Extended))
       = length (targetOrder (sampleSession Extended))
   \<and> score (run Extended [Select (Tile (-1)), Select (Tile 35), Select (Tile 3), Tick,
                          Select (Tile 35)] (sampleSession Extended))
       = score (sampleSession Extended) + 10"
proof -
  let ?es = "[Select (Tile (-1)), Select (Tile 35), Select (Tile 3), Tick, Select (Tile 35)]"
  have h: "\<forall>e\<in>set ?es. inRound e" "\<forall>e\<in>set ?es. inSession e" by simp_all
  have n: "nextIndex (sampleSession Extended) < length (targetOrder (sampleSession Extended))"
    by (simp add: sampleSession_ext)
  have r: "nextIndex (run Extended ?es (sampleSession Extended))
           = length (targetOrder (sampleSession Extended))"
    by (simp add: sampleSession_ext run_def session_defs selectionCorrect_def expected_def)
  have "score (run Extended ?es (sampleSession Extended)) = score (sampleSession Extended) + 10"
    using h n r scoring_law [of Extended "Tile 0" "sampleSession Extended" ?es]
    by simp
  then show ?thesis using n r by simp
qed

text \<open>
  Claim C5.  In a session reached from the initial one, an incorrect selection handled
  while \<open>acceptingInput\<close> is true takes 2 seconds off \<open>remaining\<close>, stopping at 0; the new
  value is never above the old one and never below 0.
\<close>

theorem penalty_law:
  assumes "s = run var es (initialSession h)" and "acceptingInput s"
    and "\<not> selectionCorrect var sel s"
  shows "remaining (onBubbleSelect var sel s) = max 0 (remaining s - 2)
       \<and> remaining (onBubbleSelect var sel s) \<le> remaining s
       \<and> 0 \<le> remaining (onBubbleSelect var sel s)"
proof -
  have "0 \<le> remaining s" using assms(1) run_remaining by simp
  moreover have "onBubbleSelect var sel s = applyPenalty s"
    using assms(2,3) by (simp add: onBubbleSelect_def)
  ultimately show ?thesis by (simp add: applyPenalty_frame)
qed

theorem penalty_law_witness:
  "acceptingInput (sampleSession Extended)
   \<and> \<not> selectionCorrect Extended (Tile 35) (sampleSession Extended)
   \<and> remaining (sampleSession Extended) = 15
   \<and> remaining (onBubbleSelect Extended (Tile 35) (sampleSession Extended)) = 13"
proof -
  have a: "acceptingInput (sampleSession Extended)" by (simp add: sampleSession_ext)
  have c: "\<not> selectionCorrect Extended (Tile 35) (sampleSession Extended)"
    by (simp add: selectionCorrect_def expected_def sampleSession_ext)
  have r: "remaining (sampleSession Extended) = 15" by (simp add: sampleSession_ext)
  show ?thesis
    using a c r penalty_law [OF sampleSession_def a c] by simp
qed

section \<open>Claims about the synthesizer\<close>

text \<open>
  Claim C2.  For every variant, random sequence, round number and requested count, no two
  expressions returned by the synthesizer have the same value after rounding to three
  decimal places.
\<close>

theorem generated_values_distinct:
  "distinct (map (round3 \<circ> val) (generateExpressionsForRound var rnd rno count))"
proof (cases var)
  case IntegerOnly
  have eq: "map (round3 \<circ> val) (items (generate_int rnd rno count))
        = map val (items (generate_int rnd rno count))"
    using generate_int_facts(3) [of rnd rno count] by (simp add: round3_whole)
  have "distinct (map (round3 \<circ> val) (items (generate_int rnd rno count)))"
    unfolding eq by (rule generate_int_facts(1))
  then show ?thesis using IntegerOnly
    by (simp add: generateExpressionsForRound_def generateExpressionsForRound_int_def)
next
  case Extended
  then show ?thesis using generate_ext_facts(1) [of rnd rno count]
    by (simp add: generateExpressionsForRound_def generateExpressionsForRound_ext_def)
qed

text \<open>
  Claim C6.  Every expression returned by the synthesizer stores the finite result of
  evaluating its operands with its operator, and that value is at most \<open>MAX_MAGNITUDE\<close> in
  absolute value: 999 in the whole-number variant, 999999 in the extended one.  A candidate
  that is not finite or exceeds the bound is never in the output.
\<close>

theorem generated_values_bounded:
  "\<forall>e\<in>set (generateExpressionsForRound var rnd rno count).
     (case expr e of (a, op, b) \<Rightarrow>
        isFinite (evaluateFor var a b op) \<and> evaluateFor var a b op = Num (val e))
     \<and> \<bar>val e\<bar> \<le> MAX_MAGNITUDE var"
proof (cases var)
  case IntegerOnly
  then show ?thesis using generate_int_facts(2) [of rnd rno count]
    by (auto simp: generateExpressionsForRound_def generateExpressionsForRound_int_def
        evaluateFor_def MAX_MAGNITUDE_def)
next
  case Extended
  then show ?thesis using generate_ext_facts(2) [of rnd rno count]
    by (auto simp: generateExpressionsForRound_def generateExpressionsForRound_ext_def
        evaluateFor_def MAX_MAGNITUDE_def)
qed

theorem generated_values_bounded_witness:
  "\<lparr>expr = (5, Power, 3), val = 125\<rparr> \<in> set (generateExpressionsForRound Extended sampleDraws 1 5)
   \<and> isFinite (evaluateFor Extended 5 3 Power)
   \<and> evaluateFor Extended 5 3 Power = Num 125
   \<and> \<bar>125\<bar> \<le> MAX_MAGNITUDE Extended"
proof -
  have m: "\<lparr>expr = (5, Power, 3), val = 125\<rparr>
           \<in> set (generateExpressionsForRound Extended sampleDraws 1 5)"
    by (simp add: sample_items_five)
  show ?thesis
    using m generated_values_bounded [of Extended sampleDraws 1 5, THEN bspec, OF m]
    by simp
qed


text \<open>
  Claim C10.  In the extended variant the round has 3 tiles and the operator of a slot is
  \<^verbatim>\<open>ops[items.length % 5]\<close>, so every pass of the loop works on \<open>+\<close>, \<open>-\<close> or \<open>*\<close>, and
  every expression returned for a round uses one of these three: the branches for
  division and exponentiation are never taken, although the operator list holds all five.
\<close>

theorem extended_round_operators:
  "(\<forall>n<getBubbleCountForRound rno.
      getOperatorSetForRound_ext rno ! (n mod length (getOperatorSetForRound_ext rno))
        \<in> {Plus, Minus, Times})
   \<and> (\<forall>e\<in>set (generateExpressionsForRound_ext rnd rno (getBubbleCountForRound rno)).
        fst (snd (expr e)) \<in> {Plus, Minus, Times})
   \<and> getOperatorSetForRound_ext rno = [Plus, Minus, Times, Divide, Power]"
proof -
  let ?xs = "items (generate_ext rnd rno 3)"
  have sel: "\<And>n. n < 3 \<Longrightarrow> getOperatorSetForRound_ext rno
               ! (n mod length (getOperatorSetForRound_ext rno)) \<in> {Plus, Minus, Times}"
  proof -
    fix n :: nat
    assume "n < 3"
    then have "n = 0 \<or> n = 1 \<or> n = 2" by arith
    then show "getOperatorSetForRound_ext rno
               ! (n mod length (getOperatorSetForRound_ext rno)) \<in> {Plus, Minus, Times}"
      by (auto simp: getOperatorSetForRound_ext_def)
  qed
  have "\<forall>e\<in>set ?xs. fst (snd (expr e)) \<in> {Plus, Minus, Times}"
  proof
    fix e assume "e \<in> set ?xs"
    then obtain i where i: "i < length ?xs" "e = ?xs ! i" by (metis in_set_conv_nth)
    then have "i < 3" using generate_ext_facts(3) [of rnd rno 3] by simp
    moreover have "fst (snd (expr e)) = getOperatorSetForRound_ext rno
               ! (i mod length (getOperatorSetForRound_ext rno))"
      using generate_ext_facts(5) [of rnd rno 3] i by simp
    ultimately show "fst (snd (expr e)) \<in> {Plus, Minus, Times}" using sel by simp
  qed
  then show ?thesis
    using sel
    by (simp add: getBubbleCountForRound_def generateExpressionsForRound_ext_def
        getOperatorSetForRound_ext_def)
qed

theorem extended_round_operators_witness:
  "2 < getBubbleCountForRound 1
   \<and> getOperatorSetForRound_ext 1 ! (2 mod length (getOperatorSetForRound_ext 1)) = Times
   \<and> \<lparr>expr = (5, Times, 7), val = 35\<rparr>
       \<in> set (generateExpressionsForRound_ext sampleDraws 1 (getBubbleCountForRound 1))
   \<and> fst (snd (expr \<lparr>expr = (5, Times, 7), val = 35\<rparr>)) \<in> {Plus, Minus, Times}"
proof -
  have n: "2 < getBubbleCountForRound 1" by (simp add: getBubbleCountForRound_def)
  have m: "\<lparr>expr = (5, Times, 7), val = 35\<rparr>
           \<in> set (generateExpressionsForRound_ext sampleDraws 1 (getBubbleCountForRound 1))"
    using sample_items_three
    by (simp add: getBubbleCountForRound_def generateExpressionsForRound_def)
  show ?thesis
    using n m
      extended_round_operators [of 1 sampleDraws, THEN conjunct2, THEN conjunct1, THEN bspec, OF m]
      extended_round_operators [of 1 sampleDraws, THEN conjunct1, THEN spec, of 2]
    by (simp add: getOperatorSetForRound_ext_def)
qed

end
